theory Spec2Isabelle
  imports Main "HOL-Library.Multiset" "HOL-Library.List_Lexorder" "HOL-Library.Char_ord"
begin

section \<open>Python values, errors and text files\<close>

text \<open>
  The program is Python 2 (integer \<^verbatim>\<open>/\<close>, an eager \<^verbatim>\<open>map\<close>, the three-argument
  \<^verbatim>\<open>bz2.BZ2File\<close>).  A \<^verbatim>\<open>str\<close> is a \<^typ>\<open>string\<close>; its comparison is the bytewise
  lexicographic order, which is the order of \<^typ>\<open>char list\<close> given by the imported
  library theories.  A value that is either \<^verbatim>\<open>None\<close> or a \<^verbatim>\<open>str\<close> is a
  \<^typ>\<open>string option\<close>.  Every exception the modelled code can raise is a value of
  \<open>py_error\<close>, and a function that can raise returns a sum whose left injection is the error.
\<close>

datatype py_error = ZeroDivisionError | KeyError | TypeError | IOError

text \<open>
  An open text file is the part of its content that has not been read yet.
  \<^verbatim>\<open>file.readline()\<close> returns the next line with its terminator, the unterminated rest
  when no terminator is left, and the empty string at the end of the file.
\<close>

fun readline :: "string \<Rightarrow> string \<times> string" where
  "readline [] = ([], [])"
| "readline (c # cs) =
     (if c = CHR 0x0A then ([c], cs)
      else (case readline cs of (line, rest) \<Rightarrow> (c # line, rest)))"

text \<open>The lines of a text, as iterating over the file yields them.\<close>

fun splitlines :: "string \<Rightarrow> string list" where
  "splitlines [] = []"
| "splitlines (c # cs) =
     (if c = CHR 0x0A then [c] # splitlines cs
      else (case splitlines cs of [] \<Rightarrow> [[c]] | l # ls \<Rightarrow> (c # l) # ls))"

lemma readline_append: "readline f = (line, rest) \<Longrightarrow> line @ rest = f"
  by (induction f arbitrary: line rest) (auto split: if_splits prod.splits)

lemma readline_Nil_iff: "fst (readline f) = [] \<longleftrightarrow> f = []"
  by (cases f) (auto split: prod.splits)

lemma readline_shorter:
  assumes "readline f = (line, rest)" and "line \<noteq> []"
  shows "length rest < length f"
proof -
  from assms(1) have "length line + length rest = length f"
    by (metis length_append readline_append)
  with assms(2) show ?thesis
    by (cases line) auto
qed

text \<open>
  Modelled from the spec: \<^verbatim>\<open>file.readlines(block_size)\<close> is a call into the Python
  library, whose code is not part of the repository.  Section 4.2 of the specification
  describes the run it returns: whole records are read one after the other until their
  total size reaches the budget, the last one being read in full even when it passes the
  budget; without a positive budget the whole rest of the file is read.  The result is
  the run together with the file after the read.
\<close>

function readlines_from :: "int \<Rightarrow> int \<Rightarrow> string \<Rightarrow> string list \<times> string" where
  "readlines_from sizehint nread f =
     (case readline f of (line, rest) \<Rightarrow>
        if line = [] then ([], rest)
        else if 0 < sizehint \<and> sizehint \<le> nread + int (length line) then ([line], rest)
        else (case readlines_from sizehint (nread + int (length line)) rest of
                (ls, f') \<Rightarrow> (line # ls, f')))"
  by pat_completeness auto
termination
  by (relation "measure (\<lambda>(sizehint, nread, f). length f)")
     (auto intro: readline_shorter [OF sym])

declare readlines_from.simps [simp del]

definition readlines :: "int \<Rightarrow> string \<Rightarrow> string list \<times> string" where
  "readlines sizehint f = readlines_from sizehint 0 f"

lemma readlines_from_concat:
  "readlines_from sizehint nread f = (ls, f') \<Longrightarrow> concat ls @ f' = f \<and> [] \<notin> set ls"
proof (induction sizehint nread f arbitrary: ls f' rule: readlines_from.induct)
  case (1 sizehint nread f)
  obtain line rest where lr: "readline f = (line, rest)"
    by (cases "readline f")
  then have app: "line @ rest = f"
    by (rule readline_append)
  show ?case
  proof (cases "line = []")
    case True
    with "1.prems" lr app show ?thesis
      by (simp add: readlines_from.simps [of sizehint nread f])
  next
    case False
    show ?thesis
    proof (cases "0 < sizehint \<and> sizehint \<le> nread + int (length line)")
      case True
      with "1.prems" lr app False show ?thesis
        by (auto simp: readlines_from.simps [of sizehint nread f])
    next
      case stop: False
      obtain ls0 f0 where rec:
        "readlines_from sizehint (nread + int (length line)) rest = (ls0, f0)"
        by (cases "readlines_from sizehint (nread + int (length line)) rest")
      from "1.IH" [OF lr [symmetric] False stop rec]
      have "concat ls0 @ f0 = rest \<and> [] \<notin> set ls0" .
      moreover from "1.prems" lr False stop rec have "ls = line # ls0" "f' = f0"
        by (auto simp: readlines_from.simps [of sizehint nread f])
      ultimately show ?thesis
        using app False by auto
    qed
  qed
qed

lemma readlines_shorter:
  assumes "readlines sizehint f = (ls, f')" and "ls \<noteq> []"
  shows "length f' < length f"
proof -
  from assms(1) have c: "concat ls @ f' = f" and n: "[] \<notin> set ls"
    using readlines_from_concat [of sizehint 0 f ls f'] by (simp_all add: readlines_def)
  from assms(2) n have "concat ls \<noteq> []"
    by (cases ls) auto
  then have "0 < length (concat ls)"
    by simp
  moreover from c have "length f = length (concat ls) + length f'"
    by (metis length_append)
  ultimately show ?thesis
    by simp
qed

section \<open>The split phase\<close>

text \<open>
  A block file \<^verbatim>\<open>block_<n>.dat\<close> is named by its number \<open>n\<close>; the temporary store maps
  the names of the files that exist to their contents.  \<open>FileSplitter\<close> keeps the list of
  the block files it wrote.  \<^verbatim>\<open>write_block\<close> replaces the content of the named file by
  \<^verbatim>\<open>data\<close> and appends the name to that list.
\<close>

type_synonym filesystem = "nat \<rightharpoonup> string"

record FileSplitter =
  block_filenames :: "nat list"

definition FileSplitter_init :: FileSplitter where
  "FileSplitter_init = \<lparr>block_filenames = []\<rparr>"

definition write_block ::
  "string \<Rightarrow> nat \<Rightarrow> FileSplitter \<times> filesystem \<Rightarrow> FileSplitter \<times> filesystem" where
  "write_block data block_number st =
     (case st of (self, fs) \<Rightarrow>
        (self\<lparr>block_filenames := block_filenames self @ [block_number]\<rparr>,
         fs(block_number \<mapsto> data)))"

definition get_block_filenames :: "FileSplitter \<Rightarrow> nat list" where
  "get_block_filenames self = block_filenames self"

text \<open>
  \<^verbatim>\<open>lines.sort()\<close> and \<^verbatim>\<open>lines.sort(key=sort_key)\<close>: Python's list sort is stable, as is
  the library's \<^const>\<open>sort_key\<close>.  The optional key function is \<open>None\<close> or \<open>Some k\<close>.
\<close>

definition sort_lines :: "(string \<Rightarrow> 'k::linorder) option \<Rightarrow> string list \<Rightarrow> string list" where
  "sort_lines key ls = (case key of None \<Rightarrow> sort ls | Some k \<Rightarrow> sort_key k ls)"

text \<open>
  The loop of \<^verbatim>\<open>FileSplitter.split\<close>, on the open input file \<open>file\<close> (the text that
  reading the input yields), the counter \<open>i\<close> and the splitter with the store.
\<close>

function split_loop ::
  "int \<Rightarrow> (string \<Rightarrow> 'k::linorder) option \<Rightarrow> string \<Rightarrow> nat \<Rightarrow>
   FileSplitter \<times> filesystem \<Rightarrow> FileSplitter \<times> filesystem" where
  "split_loop block_size key file i st =
     (case readlines block_size file of (lines, file') \<Rightarrow>
        if lines = [] then st
        else split_loop block_size key file' (i + 1)
               (write_block (concat (sort_lines key lines)) i st))"
  by pat_completeness auto
termination
  by (relation "measure (\<lambda>(block_size, key, file, i, st). length file)")
     (auto intro: readlines_shorter [OF sym])

declare split_loop.simps [simp del]

definition split ::
  "int \<Rightarrow> (string \<Rightarrow> 'k::linorder) option \<Rightarrow> string \<Rightarrow>
   FileSplitter \<times> filesystem \<Rightarrow> FileSplitter \<times> filesystem" where
  "split block_size key file st = split_loop block_size key file 0 st"

section \<open>The selection strategy\<close>

text \<open>
  \<^verbatim>\<open>NWayMerge.select(choices)\<close>.  The dictionary \<^verbatim>\<open>choices\<close> is the list of its items, with
  distinct keys, so that \<^verbatim>\<open>len(choices)\<close> is the length of the list and \<^verbatim>\<open>choices[i]\<close>
  looks the key up, raising \<^verbatim>\<open>KeyError\<close> when it is absent.  The loop carries both local
  variables, \<^verbatim>\<open>min_index\<close> and \<^verbatim>\<open>min_str\<close>; the source assigns only the first.  Python's
  \<^verbatim>\<open>or\<close> does not evaluate its right operand when the left one holds.  Where the
  comparison \<^verbatim>\<open>choices[i] < min_str\<close> is evaluated, \<^verbatim>\<open>min_str\<close> is a string, and Python 2
  orders \<^verbatim>\<open>None\<close> before every string.
\<close>

type_synonym choices = "(nat \<times> string option) list"

definition py_less :: "string option \<Rightarrow> string \<Rightarrow> bool" where
  "py_less v m = (case v of None \<Rightarrow> True | Some s \<Rightarrow> s < m)"

fun select_loop ::
  "choices \<Rightarrow> nat list \<Rightarrow> int \<times> string option \<Rightarrow> py_error + int \<times> string option" where
  "select_loop choices [] (min_index, min_str) = Inr (min_index, min_str)"
| "select_loop choices (i # is) (min_index, min_str) =
     (case min_str of
        None \<Rightarrow> select_loop choices is (int i, min_str)
      | Some m \<Rightarrow>
          (case map_of choices i of
             None \<Rightarrow> Inl KeyError
           | Some v \<Rightarrow>
               if py_less v m then select_loop choices is (int i, min_str)
               else select_loop choices is (min_index, min_str)))"

definition select :: "choices \<Rightarrow> py_error + int" where
  "select choices =
     (case select_loop choices [0..<length choices] (- 1, None) of
        Inl e \<Rightarrow> Inl e
      | Inr (min_index, min_str) \<Rightarrow> Inr min_index)"

section \<open>The stream buffers\<close>

text \<open>
  \<^verbatim>\<open>FilesArray\<close>: the dictionaries \<^verbatim>\<open>files\<close> and \<^verbatim>\<open>buffers\<close> have the keys
  \<open>0, \<dots>, n - 1\<close> and are lists, read at a key that is not there with \<^verbatim>\<open>KeyError\<close>, as
  a dictionary is.  A file of \<^verbatim>\<open>files\<close> is the text not read from it yet; a buffer is
  \<^verbatim>\<open>None\<close> or the string last read.
\<close>

record FilesArray =
  files :: "string list"
  empty :: "nat set"
  num_buffers :: nat
  buffers :: "string option list"

definition FilesArray_init :: "string list \<Rightarrow> FilesArray" where
  "FilesArray_init fls =
     \<lparr>files = fls, empty = {}, num_buffers = length fls,
      buffers = map (\<lambda>i. None) [0..<length fls]\<rparr>"

text \<open>The comprehension of \<^verbatim>\<open>get_dict\<close>, key by key.\<close>

fun get_dict_loop :: "nat list \<Rightarrow> FilesArray \<Rightarrow> py_error + choices" where
  "get_dict_loop [] self = Inr []"
| "get_dict_loop (i # is) self =
     (if i \<notin> empty self then
        (if i < length (buffers self) then
           (case get_dict_loop is self of
              Inl e \<Rightarrow> Inl e
            | Inr d \<Rightarrow> Inr ((i, buffers self ! i) # d))
         else Inl KeyError)
      else get_dict_loop is self)"

definition get_dict :: "FilesArray \<Rightarrow> py_error + choices" where
  "get_dict self = get_dict_loop [0..<num_buffers self] self"

text \<open>The body of the loop of \<^verbatim>\<open>refresh\<close> at the index \<open>i\<close>, the loop, and the method.\<close>

definition refresh_at :: "nat \<Rightarrow> FilesArray \<Rightarrow> py_error + FilesArray" where
  "refresh_at i self =
     (if i < length (buffers self) then
        (if buffers self ! i = None \<and> i \<notin> empty self then
           (if i < length (files self) then
              (case readline (files self ! i) of (line, rest) \<Rightarrow>
                 Inr (self\<lparr>files := (files self)[i := rest],
                           buffers := (buffers self)[i := Some line],
                           empty := (if line = [] then insert i (empty self)
                                     else empty self)\<rparr>))
            else Inl KeyError)
         else Inr self)
      else Inl KeyError)"

fun refresh_loop :: "nat list \<Rightarrow> FilesArray \<Rightarrow> py_error + FilesArray" where
  "refresh_loop [] self = Inr self"
| "refresh_loop (i # is) self =
     (case refresh_at i self of
        Inl e \<Rightarrow> Inl e
      | Inr self' \<Rightarrow> refresh_loop is self')"

definition refresh :: "FilesArray \<Rightarrow> py_error + bool \<times> FilesArray" where
  "refresh self =
     (case refresh_loop [0..<num_buffers self] self of
        Inl e \<Rightarrow> Inl e
      | Inr self' \<Rightarrow>
          if card (empty self') = num_buffers self' then Inr (False, self')
          else Inr (True, self'))"

text \<open>\<^verbatim>\<open>unshift(index)\<close> returns the buffer and the object with the buffer cleared.\<close>

definition unshift :: "int \<Rightarrow> FilesArray \<Rightarrow> py_error + string option \<times> FilesArray" where
  "unshift index self =
     (if 0 \<le> index \<and> nat index < length (buffers self) then
        Inr (buffers self ! nat index,
             self\<lparr>buffers := (buffers self)[nat index := None]\<rparr>)
      else Inl KeyError)"

section \<open>The merge phase\<close>

text \<open>
  A measure of the work left in a \<open>FilesArray\<close>: per stream, twice the length of the
  unread text, two while the stream is not marked exhausted, and one for a filled buffer.
  A pass of \<^verbatim>\<open>refresh\<close> does not increase it and \<^verbatim>\<open>unshift\<close> of a filled buffer
  decreases it, so the loop of \<^verbatim>\<open>merge\<close> ends.
\<close>

definition stream_weight :: "FilesArray \<Rightarrow> nat \<Rightarrow> nat" where
  "stream_weight self i =
     2 * (if i < length (files self) then length (files self ! i) else 0)
     + (if i \<in> empty self then 0 else 2)
     + (if buffers self ! i = None then 0 else 1)"

definition weight :: "FilesArray \<Rightarrow> nat" where
  "weight self = (\<Sum>i<length (buffers self). stream_weight self i)"

lemma refresh_at_weight:
  assumes "refresh_at i self = Inr self'"
  shows "length (buffers self') = length (buffers self) \<and> num_buffers self' = num_buffers self
    \<and> weight self' \<le> weight self"
proof (cases "i < length (buffers self) \<and> buffers self ! i = None \<and> i \<notin> empty self")
  case False
  with assms have "self' = self"
    by (auto simp: refresh_at_def split: if_splits)
  then show ?thesis by simp
next
  case True
  with assms have fi: "i < length (files self)"
    by (auto simp: refresh_at_def split: if_splits)
  obtain line rest where lr: "readline (files self ! i) = (line, rest)"
    by (cases "readline (files self ! i)")
  from assms True fi lr have s': "self' = self\<lparr>files := (files self)[i := rest],
      buffers := (buffers self)[i := Some line],
      empty := (if line = [] then insert i (empty self) else empty self)\<rparr>"
    by (simp add: refresh_at_def)
  have other: "stream_weight self' j = stream_weight self j" if "j \<noteq> i" for j
    using that s' by (auto simp: stream_weight_def)
  have at_i: "stream_weight self' i \<le> stream_weight self i"
  proof (cases "line = []")
    case True
    with s' fi \<open>i < length (buffers self) \<and> buffers self ! i = None \<and> i \<notin> empty self\<close>
    show ?thesis
      using readline_append [OF lr] by (auto simp: stream_weight_def)
  next
    case False
    from readline_shorter [OF lr False] s' fi
      \<open>i < length (buffers self) \<and> buffers self ! i = None \<and> i \<notin> empty self\<close> False
    show ?thesis
      by (auto simp: stream_weight_def)
  qed
  have "stream_weight self' j \<le> stream_weight self j" for j
    using other at_i by (cases "j = i") auto
  then have "weight self' \<le> weight self"
    using s' by (auto simp: weight_def intro: sum_mono)
  with s' show ?thesis by simp
qed

lemma refresh_loop_weight:
  "refresh_loop is self = Inr self' \<Longrightarrow>
   length (buffers self') = length (buffers self) \<and> num_buffers self' = num_buffers self
    \<and> weight self' \<le> weight self"
proof (induction "is" arbitrary: self)
  case Nil
  then show ?case by simp
next
  case (Cons i "is")
  from Cons.prems obtain s1 where a: "refresh_at i self = Inr s1" and b: "refresh_loop is s1 = Inr self'"
    by (auto split: sum.splits)
  from refresh_at_weight [OF a] Cons.IH [OF b] show ?case
    by simp
qed

lemma refresh_weight:
  "refresh self = Inr (alive, self') \<Longrightarrow> weight self' \<le> weight self"
  by (auto simp: refresh_def split: sum.splits if_splits dest: refresh_loop_weight)

lemma unshift_weight:
  assumes "unshift index self = Inr (Some s, self')"
  shows "weight self' < weight self"
proof -
  from assms have r: "0 \<le> index" "nat index < length (buffers self)"
    and v: "buffers self ! nat index = Some s"
    and s': "self' = self\<lparr>buffers := (buffers self)[nat index := None]\<rparr>"
    by (auto simp: unshift_def split: if_splits)
  have "stream_weight self' j \<le> stream_weight self j" for j
    using s' r by (cases "j = nat index") (auto simp: stream_weight_def)
  moreover have "stream_weight self' (nat index) < stream_weight self (nat index)"
    using s' r v by (auto simp: stream_weight_def)
  ultimately have "(\<Sum>i<length (buffers self). stream_weight self' i)
      < (\<Sum>i<length (buffers self). stream_weight self i)"
    using r by (intro sum_strict_mono_ex1) auto
  with s' show ?thesis
    by (simp add: weight_def)
qed

text \<open>
  \<^verbatim>\<open>get_file_handles\<close> opens the named block files in the order of the list; opening a
  file that does not exist raises \<^verbatim>\<open>IOError\<close>.  The handle of the \<open>i\<close>-th name is the
  \<open>i\<close>-th file.
\<close>

fun get_file_handles :: "filesystem \<Rightarrow> nat list \<Rightarrow> py_error + string list" where
  "get_file_handles fs [] = Inr []"
| "get_file_handles fs (name # names) =
     (case fs name of
        None \<Rightarrow> Inl IOError
      | Some content \<Rightarrow>
          (case get_file_handles fs names of
             Inl e \<Rightarrow> Inl e
           | Inr fls \<Rightarrow> Inr (content # fls)))"

text \<open>
  The loop of \<^verbatim>\<open>FileMerger.merge\<close>.  The output file is the list of the strings written
  to it, in the order of the writes; \<^verbatim>\<open>outfile.write(None)\<close> raises \<^verbatim>\<open>TypeError\<close>.
\<close>

function merge_loop :: "FilesArray \<Rightarrow> string list \<Rightarrow> py_error + string list" where
  "merge_loop bufs outfile =
     (case refresh bufs of
        Inl e \<Rightarrow> Inl e
      | Inr (alive, bufs1) \<Rightarrow>
          if alive then
            (case get_dict bufs1 of
               Inl e \<Rightarrow> Inl e
             | Inr choices \<Rightarrow>
                 (case select choices of
                    Inl e \<Rightarrow> Inl e
                  | Inr min_index \<Rightarrow>
                      (case unshift min_index bufs1 of
                         Inl e \<Rightarrow> Inl e
                       | Inr (v, bufs2) \<Rightarrow>
                           (case v of
                              None \<Rightarrow> Inl TypeError
                            | Some s \<Rightarrow> merge_loop bufs2 (outfile @ [s])))))
          else Inr outfile)"
  by pat_completeness auto
termination
proof (relation "measure (\<lambda>(bufs, outfile). weight bufs)", goal_cases)
  case 1
  show ?case by simp
next
  case (2 bufs outfile x2 alive bufs1 choices min_index p v bufs2 s)
  then show ?case
    using refresh_weight [of bufs alive bufs1] unshift_weight [of min_index bufs1 s bufs2]
    by simp
qed

declare merge_loop.simps [simp del]

text \<open>
  \<^verbatim>\<open>merge(filenames, outfilename, buffer_size)\<close>: the output file is opened for writing,
  hence empty; \<^verbatim>\<open>buffer_size\<close> only sets the size of the I/O buffers.
\<close>

definition merge :: "filesystem \<Rightarrow> nat list \<Rightarrow> int \<Rightarrow> py_error + string list" where
  "merge fs filenames buffer_size =
     (case get_file_handles fs filenames of
        Inl e \<Rightarrow> Inl e
      | Inr fls \<Rightarrow> merge_loop (FilesArray_init fls) [])"

section \<open>The driver\<close>

text \<open>
  \<^verbatim>\<open>ExternalSort.sort\<close>, with the block size of the object, the size \<^verbatim>\<open>st_size\<close> of the
  input file, the key function, the text of the input and the store.  Python 2 divides
  integers with the floor, as \<^const>\<open>divide\<close> on \<^typ>\<open>int\<close> does, and raises
  \<^verbatim>\<open>ZeroDivisionError\<close> on a zero divisor.  The result is what was written to the output.
\<close>

definition get_number_blocks :: "int \<Rightarrow> int \<Rightarrow> py_error + int" where
  "get_number_blocks st_size block_size =
     (if block_size = 0 then Inl ZeroDivisionError else Inr (st_size div block_size + 1))"

definition ExternalSort_sort ::
  "int \<Rightarrow> int \<Rightarrow> (string \<Rightarrow> 'k::linorder) option \<Rightarrow> string \<Rightarrow> filesystem \<Rightarrow>
   py_error + string list" where
  "ExternalSort_sort block_size st_size key file fs =
     (case get_number_blocks st_size block_size of
        Inl e \<Rightarrow> Inl e
      | Inr num_blocks \<Rightarrow>
          (case split block_size key file (FileSplitter_init, fs) of
             (splitter, fs') \<Rightarrow>
               if num_blocks + 1 = 0 then Inl ZeroDivisionError
               else merge fs' (get_block_filenames splitter)
                      (block_size div (num_blocks + 1))))"

section \<open>Well-formed stream buffers\<close>

text \<open>
  What \<^verbatim>\<open>FilesArray.__init__\<close> establishes and every method keeps: both dictionaries have
  the keys \<open>0, \<dots>, num_buffers - 1\<close>, and only these indices are marked exhausted.  A
  stream needs a read when its buffer is \<^verbatim>\<open>None\<close> and it is not marked exhausted.
\<close>

definition wf_FilesArray :: "FilesArray \<Rightarrow> bool" where
  "wf_FilesArray self \<longleftrightarrow>
     length (files self) = num_buffers self \<and> length (buffers self) = num_buffers self
     \<and> empty self \<subseteq> {..<num_buffers self}"

definition needs_read :: "FilesArray \<Rightarrow> nat \<Rightarrow> bool" where
  "needs_read self i \<longleftrightarrow> buffers self ! i = None \<and> i \<notin> empty self"

section \<open>Facts about the selection strategy\<close>

lemma select_loop_None:
  "select_loop choices is (min_index, None) =
     Inr (if is = [] then min_index else int (last is), None)"
  by (induction "is" arbitrary: min_index) auto

lemma select_eq: "select choices = Inr (int (length choices) - 1)"
proof (cases "choices = []")
  case True
  then show ?thesis
    by (simp add: select_def)
next
  case False
  then have "int (length choices - Suc 0) = int (length choices) - 1"
    by (cases choices) auto
  with False show ?thesis
    by (simp add: select_def select_loop_None)
qed

section \<open>Facts about the stream buffers\<close>

lemma refresh_at_read:
  assumes "i < length (buffers self)" "i < length (files self)" "needs_read self i"
  shows "refresh_at i self =
     Inr (self\<lparr>files := (files self)[i := snd (readline (files self ! i))],
               buffers := (buffers self)[i := Some (fst (readline (files self ! i)))],
               empty := (if files self ! i = [] then insert i (empty self) else empty self)\<rparr>)"
  using assms readline_Nil_iff [of "files self ! i"]
  by (auto simp: refresh_at_def needs_read_def split: prod.splits)

lemma refresh_at_skip:
  assumes "i < length (buffers self)" "\<not> needs_read self i"
  shows "refresh_at i self = Inr self"
  using assms by (auto simp: refresh_at_def needs_read_def)

lemma refresh_loop_pointwise:
  assumes "distinct is" and "\<forall>i\<in>set is. i < length (buffers self) \<and> i < length (files self)"
  shows "\<exists>self'. refresh_loop is self = Inr self'
    \<and> length (files self') = length (files self)
    \<and> length (buffers self') = length (buffers self)
    \<and> num_buffers self' = num_buffers self
    \<and> (\<forall>j. j \<in> set is \<and> needs_read self j \<longrightarrow>
          buffers self' ! j = Some (fst (readline (files self ! j)))
          \<and> files self' ! j = snd (readline (files self ! j))
          \<and> (j \<in> empty self' \<longleftrightarrow> files self ! j = []))
    \<and> (\<forall>j. \<not> (j \<in> set is \<and> needs_read self j) \<longrightarrow>
          buffers self' ! j = buffers self ! j
          \<and> files self' ! j = files self ! j
          \<and> (j \<in> empty self' \<longleftrightarrow> j \<in> empty self))"
  using assms
proof (induction "is" arbitrary: self)
  case Nil
  then show ?case by simp
next
  case (Cons i "is")
  from Cons.prems have i: "i < length (buffers self)" "i < length (files self)"
    and ni: "i \<notin> set is" and d: "distinct is"
    by auto
  obtain s1 where s1: "refresh_at i self = Inr s1"
    and s1_def: "s1 = (if needs_read self i then
       self\<lparr>files := (files self)[i := snd (readline (files self ! i))],
               buffers := (buffers self)[i := Some (fst (readline (files self ! i)))],
               empty := (if files self ! i = [] then insert i (empty self) else empty self)\<rparr>
       else self)"
    using refresh_at_read [OF i] refresh_at_skip [OF i(1)] by (cases "needs_read self i") auto
  have len: "length (files s1) = length (files self)" "length (buffers s1) = length (buffers self)"
    "num_buffers s1 = num_buffers self"
    by (simp_all add: s1_def)
  have other: "needs_read s1 j = needs_read self j" "buffers s1 ! j = buffers self ! j"
    "files s1 ! j = files self ! j" "j \<in> empty s1 \<longleftrightarrow> j \<in> empty self" if "j \<noteq> i" for j
    using that by (auto simp: s1_def needs_read_def)
  from Cons.prems len have "\<forall>j\<in>set is. j < length (buffers s1) \<and> j < length (files s1)"
    by simp
  from Cons.IH [OF d this] obtain self' where r: "refresh_loop is s1 = Inr self'"
    and l': "length (files self') = length (files s1)" "length (buffers self') = length (buffers s1)"
      "num_buffers self' = num_buffers s1"
    and rd: "\<And>j. j \<in> set is \<and> needs_read s1 j \<Longrightarrow>
          buffers self' ! j = Some (fst (readline (files s1 ! j)))
          \<and> files self' ! j = snd (readline (files s1 ! j))
          \<and> (j \<in> empty self' \<longleftrightarrow> files s1 ! j = [])"
    and sk: "\<And>j. \<not> (j \<in> set is \<and> needs_read s1 j) \<Longrightarrow>
          buffers self' ! j = buffers s1 ! j
          \<and> files self' ! j = files s1 ! j
          \<and> (j \<in> empty self' \<longleftrightarrow> j \<in> empty s1)"
    by blast
  have at_i: "buffers self' ! i = buffers s1 ! i" "files self' ! i = files s1 ! i"
    "i \<in> empty self' \<longleftrightarrow> i \<in> empty s1"
    using sk [of i] ni by auto
  have A: "buffers self' ! j = Some (fst (readline (files self ! j)))
          \<and> files self' ! j = snd (readline (files self ! j))
          \<and> (j \<in> empty self' \<longleftrightarrow> files self ! j = [])"
    if "j \<in> set (i # is) \<and> needs_read self j" for j
  proof (cases "j = i")
    case True
    with that at_i i show ?thesis
      by (auto simp: s1_def needs_read_def)
  next
    case False
    with that rd [of j] other [of j] show ?thesis
      by auto
  qed
  have B: "buffers self' ! j = buffers self ! j
          \<and> files self' ! j = files self ! j
          \<and> (j \<in> empty self' \<longleftrightarrow> j \<in> empty self)"
    if "\<not> (j \<in> set (i # is) \<and> needs_read self j)" for j
  proof (cases "j = i")
    case True
    with that at_i show ?thesis
      by (auto simp: s1_def)
  next
    case False
    with that sk [of j] other [of j] show ?thesis
      by auto
  qed
  from s1 r have "refresh_loop (i # is) self = Inr self'"
    by simp
  with l' len A B show ?case
    by (intro exI [of _ self']) simp
qed

lemma refresh_spec:
  assumes "wf_FilesArray self"
  shows "\<exists>alive self'. refresh self = Inr (alive, self') \<and> wf_FilesArray self'
    \<and> num_buffers self' = num_buffers self
    \<and> (\<forall>i. i < num_buffers self \<and> needs_read self i \<longrightarrow>
          buffers self' ! i = Some (fst (readline (files self ! i)))
          \<and> files self' ! i = snd (readline (files self ! i))
          \<and> (i \<in> empty self' \<longleftrightarrow> fst (readline (files self ! i)) = []))
    \<and> (\<forall>i. \<not> (i < num_buffers self \<and> needs_read self i) \<longrightarrow>
          buffers self' ! i = buffers self ! i
          \<and> files self' ! i = files self ! i
          \<and> (i \<in> empty self' \<longleftrightarrow> i \<in> empty self))
    \<and> (alive \<longleftrightarrow> \<not> (\<forall>i<num_buffers self. i \<in> empty self'))"
proof -
  let ?n = "num_buffers self"
  from assms have len: "length (files self) = ?n" "length (buffers self) = ?n"
    and sub: "empty self \<subseteq> {..<?n}"
    by (simp_all add: wf_FilesArray_def)
  have "distinct [0..<?n]" "\<forall>i\<in>set [0..<?n]. i < length (buffers self) \<and> i < length (files self)"
    using len by simp_all
  from refresh_loop_pointwise [OF this] obtain self' where
    r: "refresh_loop [0..<?n] self = Inr self'"
    and l': "length (files self') = length (files self)"
      "length (buffers self') = length (buffers self)" "num_buffers self' = ?n"
    and rd: "\<And>j. j \<in> set [0..<?n] \<and> needs_read self j \<Longrightarrow>
          buffers self' ! j = Some (fst (readline (files self ! j)))
          \<and> files self' ! j = snd (readline (files self ! j))
          \<and> (j \<in> empty self' \<longleftrightarrow> files self ! j = [])"
    and sk: "\<And>j. \<not> (j \<in> set [0..<?n] \<and> needs_read self j) \<Longrightarrow>
          buffers self' ! j = buffers self ! j
          \<and> files self' ! j = files self ! j
          \<and> (j \<in> empty self' \<longleftrightarrow> j \<in> empty self)"
    by blast
  have sub': "empty self' \<subseteq> {..<?n}"
  proof
    fix j assume j: "j \<in> empty self'"
    show "j \<in> {..<?n}"
    proof (rule ccontr)
      assume "j \<notin> {..<?n}"
      then have "\<not> (j \<in> set [0..<?n] \<and> needs_read self j)"
        by simp
      from sk [OF this] j sub \<open>j \<notin> {..<?n}\<close> show False
        by auto
    qed
  qed
  then have wf': "wf_FilesArray self'"
    using l' len by (simp add: wf_FilesArray_def)
  have "card (empty self') = ?n \<longleftrightarrow> empty self' = {..<?n}"
    using sub' by (metis card_lessThan card_subset_eq finite_lessThan)
  also have "\<dots> \<longleftrightarrow> (\<forall>i<?n. i \<in> empty self')"
    using sub' by auto
  finally have c: "card (empty self') = ?n \<longleftrightarrow> (\<forall>i<?n. i \<in> empty self')" .
  define alive where "alive = (card (empty self') \<noteq> ?n)"
  have ref: "refresh self = Inr (alive, self')"
    using r l' by (simp add: refresh_def alive_def)
  have A: "buffers self' ! i = Some (fst (readline (files self ! i)))
          \<and> files self' ! i = snd (readline (files self ! i))
          \<and> (i \<in> empty self' \<longleftrightarrow> fst (readline (files self ! i)) = [])"
    if "i < ?n \<and> needs_read self i" for i
    using rd [of i] that by (simp add: readline_Nil_iff)
  have B: "buffers self' ! i = buffers self ! i
          \<and> files self' ! i = files self ! i
          \<and> (i \<in> empty self' \<longleftrightarrow> i \<in> empty self)"
    if "\<not> (i < ?n \<and> needs_read self i)" for i
    using sk [of i] that by simp
  have "alive \<longleftrightarrow> \<not> (\<forall>i<?n. i \<in> empty self')"
    using c by (simp add: alive_def)
  with ref wf' l' A B show ?thesis
    by (intro exI [of _ alive] exI [of _ self']) simp
qed

section \<open>The claims\<close>

text \<open>
  C2, a defect of the code.  The claim: on a non-empty mapping, \<^verbatim>\<open>select\<close> returns the
  index of the smallest pending record, and the lowest such index among equal records.
  The code does neither: with the smaller record on stream 0 it returns 1, and with
  equal records on both streams it returns 1 as well.
\<close>

theorem select_not_minimum:
  "select [(0, Some ''apple\<newline>''), (1, Some ''banana\<newline>'')] = Inr 1
   \<and> ''apple\<newline>'' < ''banana\<newline>''
   \<and> select [(0, Some ''apple\<newline>''), (1, Some ''apple\<newline>'')] = Inr 1"
  by (simp add: select_def less_char_def)

text \<open>
  C5.  For every mapping \<^verbatim>\<open>choices\<close>, the loop of \<^verbatim>\<open>select\<close> ends with \<^verbatim>\<open>min_str\<close> still
  \<^verbatim>\<open>None\<close>, \<^verbatim>\<open>select\<close> returns \<^verbatim>\<open>len(choices) - 1\<close> without an error (so no lookup and no
  comparison of a record was evaluated), and two mappings of the same size give the same
  index whatever their records are.
\<close>

theorem select_returns_last_index:
  "select_loop choices [0..<length choices] (- 1, None)
     = Inr (int (length choices) - 1, None)
   \<and> select choices = Inr (int (length choices) - 1)
   \<and> select (map (\<lambda>(i, v). (i, v')) choices) = select choices"
proof -
  have "int (length choices - Suc 0) = int (length choices) - 1" if "choices \<noteq> []"
    using that by (cases choices) auto
  then have "select_loop choices [0..<length choices] (- 1, None)
      = Inr (int (length choices) - 1, None)"
    by (simp add: select_loop_None)
  then show ?thesis
    by (simp add: select_eq)
qed

text \<open>
  C10, corrected.  The claim: called with an empty mapping, \<^verbatim>\<open>select\<close> fails with a
  \<^verbatim>\<open>NoActiveStreams\<close> error.  The code raises nothing there: it returns the initial value
  \<open>-1\<close> of \<^verbatim>\<open>min_index\<close>.
\<close>

theorem select_empty_no_error: "\<not> isl (select [])"
  by (simp add: select_def)

theorem select_empty_returns_minus_one: "select [] = Inr (- 1)"
  by (simp add: select_def)

text \<open>
  C8.  On a well-formed \<open>FilesArray\<close>, \<^verbatim>\<open>refresh\<close> raises nothing.  For every stream
  \<open>i\<close> that is not marked exhausted and whose buffer is \<^verbatim>\<open>None\<close>, the buffer becomes the
  string that one \<^verbatim>\<open>readline\<close> of stream \<open>i\<close> returns, the stream advances past it, and
  \<open>i\<close> is marked exhausted exactly when that string is empty (the end of the stream).
  Every other buffer, stream and mark is unchanged.  The result is \<^verbatim>\<open>False\<close> exactly when
  every stream is marked exhausted afterwards.
\<close>

theorem refresh_fills_empty_buffers:
  assumes "wf_FilesArray self"
  shows "\<exists>alive self'. refresh self = Inr (alive, self') \<and> wf_FilesArray self'
    \<and> num_buffers self' = num_buffers self
    \<and> (\<forall>i. i < num_buffers self \<and> buffers self ! i = None \<and> i \<notin> empty self \<longrightarrow>
          buffers self' ! i = Some (fst (readline (files self ! i)))
          \<and> files self' ! i = snd (readline (files self ! i))
          \<and> (i \<in> empty self' \<longleftrightarrow> fst (readline (files self ! i)) = []))
    \<and> (\<forall>i. \<not> (i < num_buffers self \<and> buffers self ! i = None \<and> i \<notin> empty self) \<longrightarrow>
          buffers self' ! i = buffers self ! i
          \<and> files self' ! i = files self ! i
          \<and> (i \<in> empty self' \<longleftrightarrow> i \<in> empty self))
    \<and> (alive = False \<longleftrightarrow> (\<forall>i<num_buffers self. i \<in> empty self'))"
  using refresh_spec [OF assms] unfolding needs_read_def by blast

theorem refresh_fills_empty_buffers_witness:
  "wf_FilesArray \<lparr>files = [''a\<newline>b\<newline>'', ''''], empty = {}, num_buffers = 2,
                   buffers = [None, None]\<rparr>
   \<and> (\<exists>alive self'.
         refresh \<lparr>files = [''a\<newline>b\<newline>'', ''''], empty = {}, num_buffers = 2,
                  buffers = [None, None]\<rparr> = Inr (alive, self')
         \<and> buffers self' ! 0 = Some ''a\<newline>'' \<and> files self' ! 0 = ''b\<newline>''
         \<and> 0 \<notin> empty self' \<and> buffers self' ! 1 = Some '''' \<and> 1 \<in> empty self' \<and> alive)"
proof -
  let ?s = "\<lparr>files = [''a\<newline>b\<newline>'', ''''], empty = {}, num_buffers = 2,
             buffers = [None, None :: string option]\<rparr>"
  have wf: "wf_FilesArray ?s"
    by (simp add: wf_FilesArray_def)
  from refresh_fills_empty_buffers [OF wf] obtain alive self' where
    r: "refresh ?s = Inr (alive, self')"
    and rd: "\<And>i. i < num_buffers ?s \<and> buffers ?s ! i = None \<and> i \<notin> empty ?s \<Longrightarrow>
          buffers self' ! i = Some (fst (readline (files ?s ! i)))
          \<and> files self' ! i = snd (readline (files ?s ! i))
          \<and> (i \<in> empty self' \<longleftrightarrow> fst (readline (files ?s ! i)) = [])"
    and al: "alive = False \<longleftrightarrow> (\<forall>i<num_buffers ?s. i \<in> empty self')"
    by blast
  from rd [of 0] have 0: "buffers self' ! 0 = Some ''a\<newline>''" "files self' ! 0 = ''b\<newline>''"
    "0 \<notin> empty self'"
    by simp_all
  from rd [of 1] have 1: "buffers self' ! 1 = Some ''''" "1 \<in> empty self'"
    by simp_all
  from al 0 have "alive"
    by auto
  with wf r 0 1 show ?thesis
    by blast
qed

end
